theory Spec2Isabelle
  imports Main
begin

section \<open>ReactContext.js: objects, closures and the observable calls\<close>

text \<open>
  The module \<^verbatim>\<open>packages/react/src/ReactContext.js\<close> mutates context objects that
  are shared by reference between the publisher, the closures it hands to the roots and
  the roots themselves. The model keeps an explicit store: context objects and the
  \<^verbatim>\<open>wrappedCallback\<close> function objects live at addresses, and every function of
  the module takes the state and returns the new one.
\<close>

type_synonym ctxref = nat
type_synonym cbref = nat
type_synonym fnref = nat

text \<open>
  The JavaScript values that can arrive as the second argument of \<^verbatim>\<open>createContext\<close>.
  A function is known by its identity only.
\<close>

datatype jsval = Undefined | Null | Function fnref | Number int | Str string | Boolean bool

text \<open>
  The context object. The fields \<^verbatim>\<open>_calculateChangedBits\<close>, \<^verbatim>\<open>_globalValue\<close>,
  \<^verbatim>\<open>_currentValue\<close> and \<^verbatim>\<open>_currentValue2\<close> lose their leading underscore, which
  an Isabelle name cannot carry. The fields \<^verbatim>\<open>$$typeof\<close>, \<^verbatim>\<open>Provider\<close>,
  \<^verbatim>\<open>Consumer\<close>, \<^verbatim>\<open>unstable_set\<close> and the development-only renderer fields are
  constants or references back to the same object and are left out; \<^verbatim>\<open>unstable_set\<close>
  is \<^verbatim>\<open>setContext\<close> applied to the context's own address. The development-mode
  \<^verbatim>\<open>Consumer\<close> is a second object whose accessors read and write the fields of the
  context itself; the module never assigns through it.
\<close>

record 'v ReactContext =
  calculateChangedBits :: jsval
  globalValue :: 'v
  currentValue :: 'v
  currentValue2 :: 'v

text \<open>
  Modelled from the spec: \<^verbatim>\<open>ReactRootList\<close> (imported from \<^verbatim>\<open>./ReactRootList\<close>)
  is the process-wide singly-linked list of active roots, read through its head pointer
  \<^verbatim>\<open>first\<close> and followed through \<^verbatim>\<open>nextGlobalRoot\<close> until \<^verbatim>\<open>null\<close>. A root
  reference is either \<^verbatim>\<open>null\<close> or a root object with its successor.
\<close>

datatype root = RootNull | Root nat root

text \<open>
  The two function objects that \<^verbatim>\<open>setContext\<close> builds. \<open>Counting\<close> is the arrow
  function of lines 44 to 50 together with the variables it captures: the mutable counter
  \<^verbatim>\<open>numRootsThatNeedUpdate\<close>, \<^verbatim>\<open>context\<close>, \<^verbatim>\<open>newValue\<close> and \<^verbatim>\<open>cb\<close>.
  \<open>Bound\<close> is \<^verbatim>\<open>contextDidUpdate.bind(null, context, newValue)\<close> of line 59.
  The counter is a JavaScript number holding an integer: it starts at the number of
  roots and goes down by one per call. Up to \<open>2^53\<close> in magnitude that arithmetic is
  exact, and beyond it a number no longer changes when one is subtracted, so it stays
  away from zero there as an integer does; the counter is an \<^typ>\<open>int\<close> here.
\<close>

datatype 'v closure =
    Counting int ctxref 'v fnref
  | Bound ctxref 'v

text \<open>
  The calls that cross the module boundary, the entries into a
  \<^verbatim>\<open>wrappedCallback\<close> and the commits are recorded in the order in which they
  happen. \<open>RootSetContext r c obj old new w\<close> is the call
  \<^verbatim>\<open>root.setContext(context, oldValue, newValue, wrappedCallback)\<close> of line 72 on root
  \<open>r\<close>, with the context object as it is when the call is made.
  \<open>WrappedCallback w\<close> is a root calling the function object at \<open>w\<close>.
  \<open>Commit site c v\<close> is a call \<^verbatim>\<open>contextDidUpdate(context, newValue)\<close>, and
  \<open>UserCallback site f args obj\<close> is a call of the caller's function \<open>f\<close> with the
  argument list \<open>args\<close>, with the context object as it is when the call is made. Both
  are made by the function object \<open>w\<close> when \<open>site = Some w\<close> (lines 47 and 48, and the
  bound function of line 59) and by \<^verbatim>\<open>setContext\<close> itself when \<open>site = None\<close>
  (lines 53, 54 and 62).
\<close>

datatype 'v event =
    RootSetContext nat ctxref "'v ReactContext" 'v 'v cbref
  | WrappedCallback cbref
  | Commit "cbref option" ctxref 'v
  | UserCallback "cbref option" fnref "'v list" "'v ReactContext"

record 'v state =
  contexts :: "ctxref \<Rightarrow> 'v ReactContext"
  first :: root
  closures :: "'v closure list"
  trace :: "'v event list"

section \<open>contextDidUpdate and the wrapped callbacks\<close>

definition emit :: "'v event \<Rightarrow> 'v state \<Rightarrow> 'v state" where
  "emit e s = s\<lparr>trace := trace s @ [e]\<rparr>"

text \<open>Lines 19 to 21: \<^verbatim>\<open>context._currentValue = context._currentValue2 = newValue\<close>.\<close>

definition contextDidUpdate :: "ctxref \<Rightarrow> 'v \<Rightarrow> 'v state \<Rightarrow> 'v state" where
  "contextDidUpdate context newValue s =
     s\<lparr>contexts := (contexts s)
          (context := (contexts s context)\<lparr>currentValue2 := newValue, currentValue := newValue\<rparr>)\<rparr>"

text \<open>
  A call of \<^verbatim>\<open>contextDidUpdate\<close> from \<open>site\<close>, recorded; and a call of the user's
  function \<open>f\<close> from \<open>site\<close> with no argument, recorded with the context object that
  the function finds.
\<close>

definition commitFrom :: "cbref option \<Rightarrow> ctxref \<Rightarrow> 'v \<Rightarrow> 'v state \<Rightarrow> 'v state" where
  "commitFrom site context newValue s =
     emit (Commit site context newValue) (contextDidUpdate context newValue s)"

definition callUser :: "cbref option \<Rightarrow> fnref \<Rightarrow> ctxref \<Rightarrow> 'v state \<Rightarrow> 'v state" where
  "callUser site f context s = emit (UserCallback site f [] (contexts s context)) s"

text \<open>
  A call of the function object at address \<open>w\<close>. Only function objects that exist can
  be called, so a call through an address that was never allocated does nothing.
  For \<open>Counting\<close> the body is lines 45 to 49: decrement, compare with zero, commit,
  call \<^verbatim>\<open>cb()\<close> with no argument. For \<open>Bound\<close> the body is \<^verbatim>\<open>contextDidUpdate\<close>
  on the bound arguments; arguments supplied by the root are ignored by both.
\<close>

definition wrappedCallback :: "cbref \<Rightarrow> 'v state \<Rightarrow> 'v state" where
  "wrappedCallback w s =
     (if w < length (closures s) then
        (let s1 = emit (WrappedCallback w) s in
         case closures s1 ! w of
           Counting numRootsThatNeedUpdate context newValue cb \<Rightarrow>
             (let n = numRootsThatNeedUpdate - 1;
                  s2 = s1\<lparr>closures := (closures s1)[w := Counting n context newValue cb]\<rparr>
              in if n = 0
                 then callUser (Some w) cb context (commitFrom (Some w) context newValue s2)
                 else s2)
         | Bound context newValue \<Rightarrow> commitFrom (Some w) context newValue s1)
      else s)"

fun callAll :: "cbref list \<Rightarrow> 'v state \<Rightarrow> 'v state" where
  "callAll [] s = s"
| "callAll (w # ws) s = callAll ws (wrappedCallback w s)"

section \<open>The roots\<close>

text \<open>
  Modelled from the spec: \<^verbatim>\<open>root.setContext\<close> is the root collaborator's
  \<open>applyContextUpdate(context, oldValue, newValue, onRootDone)\<close>; it may call a done
  callback synchronously, on the same call stack, or keep it for a later turn. What a root
  does synchronously is a parameter: from the root, the state it can read and the four
  arguments, the list of function objects it calls before it returns. Calls made later
  are separate steps (\<open>RootDone\<close> below). What the user's function does when it is
  called is outside the module as well: the call is recorded and the function returns.
  A root or a user function that publishes again before it returns, or that throws, is
  not among the behaviours covered.
\<close>

type_synonym 'v root_behaviour =
  "nat \<Rightarrow> 'v state \<Rightarrow> ctxref \<Rightarrow> 'v \<Rightarrow> 'v \<Rightarrow> cbref \<Rightarrow> cbref list"

definition rootSetContext ::
  "'v root_behaviour \<Rightarrow> nat \<Rightarrow> ctxref \<Rightarrow> 'v \<Rightarrow> 'v \<Rightarrow> cbref \<Rightarrow> 'v state \<Rightarrow> 'v state" where
  "rootSetContext beh r context oldValue newValue w s =
     callAll (beh r s context oldValue newValue w)
       (emit (RootSetContext r context (contexts s context) oldValue newValue w) s)"

section \<open>setContext\<close>

text \<open>
  Lines 38 to 43. The \<^verbatim>\<open>do ... while\<close> loop is entered only when \<^verbatim>\<open>root !== null\<close>,
  so it adds one for every root up to the terminating \<^verbatim>\<open>null\<close>.
\<close>

fun countRoots :: "root \<Rightarrow> int \<Rightarrow> int" where
  "countRoots RootNull numRootsThatNeedUpdate = numRootsThatNeedUpdate"
| "countRoots (Root r nextGlobalRoot) numRootsThatNeedUpdate =
     countRoots nextGlobalRoot (numRootsThatNeedUpdate + 1)"

text \<open>Lines 69 to 74.\<close>

fun dispatch ::
  "'v root_behaviour \<Rightarrow> root \<Rightarrow> ctxref \<Rightarrow> 'v \<Rightarrow> 'v \<Rightarrow> cbref \<Rightarrow> 'v state \<Rightarrow> 'v state" where
  "dispatch beh RootNull context oldValue newValue w s = s"
| "dispatch beh (Root r nextGlobalRoot) context oldValue newValue w s =
     dispatch beh nextGlobalRoot context oldValue newValue w
       (rootSetContext beh r context oldValue newValue w s)"

text \<open>Allocation of a function object: its address is the next free one.\<close>

definition alloc :: "'v closure \<Rightarrow> 'v state \<Rightarrow> cbref \<times> 'v state" where
  "alloc f s = (length (closures s), s\<lparr>closures := closures s @ [f]\<rparr>)"

text \<open>
  Lines 23 to 75. \<open>userCallback\<close> is \<open>None\<close> for \<^verbatim>\<open>null\<close> and \<^verbatim>\<open>undefined\<close>, and
  \<open>Some f\<close> for a function, as its type \<^verbatim>\<open>(() => mixed) | void | null\<close> has it.
\<close>

definition setContext ::
  "'v root_behaviour \<Rightarrow> ctxref \<Rightarrow> 'v \<Rightarrow> fnref option \<Rightarrow> 'v state \<Rightarrow> 'v state" where
  "setContext beh context newValue userCallback s0 =
     (let oldValue = globalValue (contexts s0 context);
          s1 = s0\<lparr>contexts := (contexts s0)
                 (context := (contexts s0 context)\<lparr>globalValue := newValue\<rparr>)\<rparr>
      in case userCallback of
           Some cb \<Rightarrow>
             (if first s1 \<noteq> RootNull then
                (let numRootsThatNeedUpdate = countRoots (first s1) 0;
                     (w, s2) = alloc (Counting numRootsThatNeedUpdate context newValue cb) s1
                 in dispatch beh (first s2) context oldValue newValue w s2)
              else callUser None cb context (commitFrom None context newValue s1))
         | None \<Rightarrow>
             (if first s1 \<noteq> RootNull then
                (let (w, s2) = alloc (Bound context newValue) s1
                 in dispatch beh (first s2) context oldValue newValue w s2)
              else commitFrom None context newValue s1))"

section \<open>createContext\<close>

definition typeof :: "jsval \<Rightarrow> string" where
  "typeof v = (case v of
       Undefined \<Rightarrow> ''undefined'' | Null \<Rightarrow> ''object'' | Function f \<Rightarrow> ''function''
     | Number n \<Rightarrow> ''number'' | Str x \<Rightarrow> ''string'' | Boolean b \<Rightarrow> ''boolean'')"

datatype warning = Warning string jsval

text \<open>
  Modelled from the spec: \<^verbatim>\<open>warningWithoutStack\<close> (imported from
  \<^verbatim>\<open>shared/warningWithoutStack\<close>) reports a non-fatal development-mode warning, made of
  the format string and its argument, when its condition is false, and returns.
\<close>

definition warningWithoutStack :: "bool \<Rightarrow> string \<Rightarrow> jsval \<Rightarrow> warning list" where
  "warningWithoutStack condition format arg = (if condition then [] else [Warning format arg])"

text \<open>
  Lines 77 to 190, with \<^verbatim>\<open>__DEV__\<close> as the first parameter. The result is the new
  context object and the warnings reported while it was built. The parameter
  \<^verbatim>\<open>calculateChangedBits\<close> is assigned to on line 82; its two values carry the
  suffixes \<open>0\<close> and \<open>1\<close>.
\<close>

definition createContext :: "bool \<Rightarrow> 'v \<Rightarrow> jsval \<Rightarrow> 'v ReactContext \<times> warning list" where
  "createContext DEV defaultValue calculateChangedBits0 =
     (let (calculateChangedBits1, warnings) =
            (if calculateChangedBits0 = Undefined then (Null, [])
             else (calculateChangedBits0,
                   if DEV then
                     warningWithoutStack
                       (calculateChangedBits0 = Null \<or> typeof calculateChangedBits0 = ''function'')
                       (''createContext: Expected the optional second argument to be a '' @
                        ''function. Instead received: %s'')
                       calculateChangedBits0
                   else []))
      in (\<lparr>calculateChangedBits = calculateChangedBits1,
           globalValue = defaultValue,
           currentValue = defaultValue,
           currentValue2 = defaultValue\<rparr>, warnings))"

section \<open>Executions\<close>

text \<open>
  What happens to the module between two turns of the host: a publish
  (\<^verbatim>\<open>context.unstable_set(newValue, userCallback)\<close>), a root calling a done callback it
  kept from an earlier dispatch, or the host mounting and unmounting roots, which replaces
  the list.
\<close>

datatype 'v action =
    Publish ctxref 'v "fnref option"
  | RootDone cbref
  | SetRootList root

fun step :: "'v root_behaviour \<Rightarrow> 'v action \<Rightarrow> 'v state \<Rightarrow> 'v state" where
  "step beh (Publish context newValue userCallback) s = setContext beh context newValue userCallback s"
| "step beh (RootDone w) s = wrappedCallback w s"
| "step beh (SetRootList r) s = s\<lparr>first := r\<rparr>"

fun run :: "'v root_behaviour \<Rightarrow> 'v action list \<Rightarrow> 'v state \<Rightarrow> 'v state" where
  "run beh [] s = s"
| "run beh (a # as) s = run beh as (step beh a s)"

text \<open>The events recorded between an earlier state and a later one.\<close>

definition events_since :: "'v state \<Rightarrow> 'v state \<Rightarrow> 'v event list" where
  "events_since s s' = drop (length (trace s)) (trace s')"

text \<open>How often the function object at \<open>w\<close> was called, and how often it called the user.\<close>

fun is_invoke :: "cbref \<Rightarrow> 'v event \<Rightarrow> bool" where
  "is_invoke w (WrappedCallback w') = (w' = w)"
| "is_invoke w e = False"

fun is_fire :: "cbref \<Rightarrow> 'v event \<Rightarrow> bool" where
  "is_fire w (UserCallback (Some w') f args obj) = (w' = w)"
| "is_fire w e = False"

definition invoked :: "cbref \<Rightarrow> 'v event list \<Rightarrow> nat" where
  "invoked w t = length (filter (is_invoke w) t)"

definition fired :: "cbref \<Rightarrow> 'v event list \<Rightarrow> nat" where
  "fired w t = length (filter (is_fire w) t)"

text \<open>The registry as the sequence of its roots, head first.\<close>

fun rootList :: "root \<Rightarrow> nat list" where
  "rootList RootNull = []"
| "rootList (Root r nextGlobalRoot) = r # rootList nextGlobalRoot"

fun is_commit :: "cbref \<Rightarrow> 'v event \<Rightarrow> bool" where
  "is_commit w (Commit (Some w') c v) = (w' = w)"
| "is_commit w e = False"

text \<open>
  The barrier protocol read off a recorded sequence of events, for the function object
  at \<open>w\<close> with \<open>k\<close> calls still outstanding: the call that brings the count from one
  to zero is followed at once by the commit and then by the call of the user's function,
  and \<open>w\<close> commits and calls the user's function nowhere else.
\<close>

fun barrier_trace :: "cbref \<Rightarrow> int \<Rightarrow> 'v event list \<Rightarrow> bool" where
  "barrier_trace w k [] = True"
| "barrier_trace w k (e # es) =
     (if is_invoke w e then
        (if k = 1 then
           (case es of
              [] \<Rightarrow> False
            | e1 # es1 \<Rightarrow>
                (case es1 of
                   [] \<Rightarrow> False
                 | e2 # es2 \<Rightarrow> is_commit w e1 \<and> is_fire w e2 \<and> barrier_trace w 0 es2))
         else barrier_trace w (k - 1) es)
      else \<not> is_commit w e \<and> \<not> is_fire w e \<and> barrier_trace w k es)"

text \<open>
  The same for a bound function object, which keeps no count: every call of \<open>w\<close> is
  followed at once by a commit, and \<open>w\<close> commits nowhere else and never calls the
  user's function.
\<close>

fun bound_trace :: "cbref \<Rightarrow> 'v event list \<Rightarrow> bool" where
  "bound_trace w [] = True"
| "bound_trace w (e # es) =
     (if is_invoke w e then
        (case es of [] \<Rightarrow> False | e1 # es1 \<Rightarrow> is_commit w e1 \<and> bound_trace w es1)
      else \<not> is_commit w e \<and> \<not> is_fire w e \<and> bound_trace w es)"

text \<open>
  The commits in a sequence of events, with the site, the context and the value of each;
  and the calls of the user's functions, with the site, the function, the argument list
  and the two current slots of the context object that the function finds.
\<close>

fun commits :: "'v event list \<Rightarrow> (cbref option \<times> ctxref \<times> 'v) list" where
  "commits [] = []"
| "commits (Commit site c v # es) = (site, c, v) # commits es"
| "commits (e # es) = commits es"

fun user_calls :: "'v event list \<Rightarrow> (cbref option \<times> fnref \<times> 'v list \<times> 'v \<times> 'v) list" where
  "user_calls [] = []"
| "user_calls (UserCallback site f args obj # es) =
     (site, f, args, currentValue obj, currentValue2 obj) # user_calls es"
| "user_calls (e # es) = user_calls es"

definition commits_from :: "cbref \<Rightarrow> 'v event list \<Rightarrow> (cbref option \<times> ctxref \<times> 'v) list" where
  "commits_from w t = filter (\<lambda>x. fst x = Some w) (commits t)"

definition user_calls_from ::
  "cbref \<Rightarrow> 'v event list \<Rightarrow> (cbref option \<times> fnref \<times> 'v list \<times> 'v \<times> 'v) list" where
  "user_calls_from w t = filter (\<lambda>x. fst x = Some w) (user_calls t)"

text \<open>The commits that \<^verbatim>\<open>setContext\<close> makes itself, lines 53 and 62.\<close>

definition direct_commits :: "'v event list \<Rightarrow> (cbref option \<times> ctxref \<times> 'v) list" where
  "direct_commits t = filter (\<lambda>x. fst x = None) (commits t)"

text \<open>
  What a function object built by a publish is after \<open>k\<close> calls, and the commits and
  user calls it has made by then. A counting function object built with a count of at
  least one has committed once and called the user once when the calls have reached the
  count, and not before; a bound function object has committed at every call.
\<close>

fun after_calls :: "'v closure \<Rightarrow> nat \<Rightarrow> 'v closure" where
  "after_calls (Counting n c v cb) k = Counting (n - int k) c v cb"
| "after_calls (Bound c v) k = Bound c v"

fun commits_after :: "cbref \<Rightarrow> 'v closure \<Rightarrow> nat \<Rightarrow> (cbref option \<times> ctxref \<times> 'v) list" where
  "commits_after w (Counting n c v cb) k = (if n \<le> int k then [(Some w, c, v)] else [])"
| "commits_after w (Bound c v) k = replicate k (Some w, c, v)"

fun user_calls_after ::
  "cbref \<Rightarrow> 'v closure \<Rightarrow> nat \<Rightarrow> (cbref option \<times> fnref \<times> 'v list \<times> 'v \<times> 'v) list" where
  "user_calls_after w (Counting n c v cb) k = (if n \<le> int k then [(Some w, cb, [], v, v)] else [])"
| "user_calls_after w (Bound c v) k = []"

fun closure_trace :: "cbref \<Rightarrow> 'v closure \<Rightarrow> 'v event list \<Rightarrow> bool" where
  "closure_trace w (Counting n c v cb) t = barrier_trace w n t"
| "closure_trace w (Bound c v) t = bound_trace w t"

text \<open>
  The function object that a publish builds on a registry \<open>r\<close> that is not empty:
  counting from the number of roots when a user callback is supplied (lines 37 to 50),
  bound otherwise (line 59).
\<close>

definition publish_closure :: "fnref option \<Rightarrow> root \<Rightarrow> ctxref \<Rightarrow> 'v \<Rightarrow> 'v closure" where
  "publish_closure u r c v =
     (case u of Some cb \<Rightarrow> Counting (int (length (rootList r))) c v cb | None \<Rightarrow> Bound c v)"

text \<open>
  The state of the function object that a publish built at \<open>w\<close> as \<open>f\<close>, \<open>L\<close> events
  after which it was built: it is still at \<open>w\<close>, it is what \<open>f\<close> is after the calls
  made to it, and the events recorded since are those of its protocol.
\<close>

definition closure_inv :: "nat \<Rightarrow> cbref \<Rightarrow> 'v closure \<Rightarrow> 'v state \<Rightarrow> bool" where
  "closure_inv L w f s =
     (L \<le> length (trace s) \<and> w < length (closures s) \<and>
      closures s ! w = after_calls f (invoked w (drop L (trace s))) \<and>
      closure_trace w f (drop L (trace s)) \<and>
      commits_from w (drop L (trace s)) = commits_after w f (invoked w (drop L (trace s))) \<and>
      user_calls_from w (drop L (trace s)) =
        user_calls_after w f (invoked w (drop L (trace s))))"

text \<open>Events that are none of the function object \<open>w\<close>.\<close>

definition foreign :: "cbref \<Rightarrow> 'v event list \<Rightarrow> bool" where
  "foreign w u = list_all (\<lambda>e. \<not> is_invoke w e \<and> \<not> is_commit w e \<and> \<not> is_fire w e) u"

definition slots_agree :: "ctxref \<Rightarrow> 'v state \<Rightarrow> bool" where
  "slots_agree c s = (currentValue (contexts s c) = currentValue2 (contexts s c))"

text \<open>
  The two current slots of every context in a state, and the slots that result from
  given ones when the commits of a sequence of events are made in order.
\<close>

definition slots :: "'v state \<Rightarrow> ctxref \<Rightarrow> 'v \<times> 'v" where
  "slots s c = (currentValue (contexts s c), currentValue2 (contexts s c))"

fun replay :: "'v event list \<Rightarrow> (ctxref \<Rightarrow> 'v \<times> 'v) \<Rightarrow> (ctxref \<Rightarrow> 'v \<times> 'v)" where
  "replay [] m = m"
| "replay (Commit site c v # es) m = replay es (m(c := (v, v)))"
| "replay (e # es) m = replay es m"

text \<open>
  The dispatches in a sequence of events: for each call of \<^verbatim>\<open>root.setContext\<close> the
  root, the context, the \<^verbatim>\<open>_globalValue\<close> that the context object holds when the call
  is made, the old value, the new value and the done callback that are passed.
\<close>

fun dispatches :: "'v event list \<Rightarrow> (nat \<times> ctxref \<times> 'v \<times> 'v \<times> 'v \<times> cbref) list" where
  "dispatches [] = []"
| "dispatches (RootSetContext r c obj old new w # es) =
     (r, c, globalValue obj, old, new, w) # dispatches es"
| "dispatches (e # es) = dispatches es"

text \<open>The argument lists of the calls of the user's functions in a sequence of events.\<close>

fun user_args :: "'v event list \<Rightarrow> 'v list list" where
  "user_args [] = []"
| "user_args (UserCallback site f args obj # es) = args # user_args es"
| "user_args (e # es) = user_args es"

text \<open>The first write of \<^verbatim>\<open>setContext\<close>, line 29, on its own.\<close>

definition publishIntent :: "ctxref \<Rightarrow> 'v \<Rightarrow> 'v state \<Rightarrow> 'v state" where
  "publishIntent c v s = s\<lparr>contexts := (contexts s)(c := (contexts s c)\<lparr>globalValue := v\<rparr>)\<rparr>"


section \<open>Scenarios\<close>

text \<open>
  A context created with default \<open>0\<close>, at every address; no function object allocated and
  nothing recorded yet; no root, or three roots. Roots that keep every done callback for
  later, and roots of which all but root \<open>3\<close> call their done callback at once.
\<close>

definition no_roots :: "int state" where
  "no_roots = \<lparr>contexts = (\<lambda>a. fst (createContext True 0 Undefined)),
                first = RootNull, closures = [], trace = []\<rparr>"

definition three_roots :: "int state" where
  "three_roots = no_roots\<lparr>first := Root 1 (Root 2 (Root 3 RootNull))\<rparr>"

definition deferred :: "int root_behaviour" where
  "deferred r s c old new w = []"

definition two_sync :: "int root_behaviour" where
  "two_sync r s c old new w = (if r = 3 then [] else [w])"

section \<open>Basic facts\<close>

lemma emit_simps [simp]:
  "trace (emit e s) = trace s @ [e]"
  "contexts (emit e s) = contexts s"
  "closures (emit e s) = closures s"
  "first (emit e s) = first s"
  by (simp_all add: emit_def)

lemma contextDidUpdate_simps [simp]:
  "trace (contextDidUpdate c v s) = trace s"
  "closures (contextDidUpdate c v s) = closures s"
  "first (contextDidUpdate c v s) = first s"
  "contexts (contextDidUpdate c v s) c' =
     (if c' = c then (contexts s c)\<lparr>currentValue2 := v, currentValue := v\<rparr> else contexts s c')"
  by (simp_all add: contextDidUpdate_def)

lemma commitFrom_simps [simp]:
  "trace (commitFrom site c v s) = trace s @ [Commit site c v]"
  "closures (commitFrom site c v s) = closures s"
  "first (commitFrom site c v s) = first s"
  "contexts (commitFrom site c v s) = contexts (contextDidUpdate c v s)"
  by (simp_all add: commitFrom_def)

lemma callUser_simps [simp]:
  "trace (callUser site f c s) = trace s @ [UserCallback site f [] (contexts s c)]"
  "closures (callUser site f c s) = closures s"
  "first (callUser site f c s) = first s"
  "contexts (callUser site f c s) = contexts s"
  by (simp_all add: callUser_def)

lemma slots_agree_wrappedCallback:
  "slots_agree c s \<Longrightarrow> slots_agree c (wrappedCallback w s)"
  by (auto simp: slots_agree_def wrappedCallback_def Let_def split: closure.splits)

lemma slots_agree_callAll:
  "slots_agree c s \<Longrightarrow> slots_agree c (callAll ws s)"
  by (induction ws arbitrary: s) (auto simp: slots_agree_wrappedCallback)

lemma slots_agree_rootSetContext:
  "slots_agree c s \<Longrightarrow> slots_agree c (rootSetContext beh r c' old new w s)"
  unfolding rootSetContext_def
  by (rule slots_agree_callAll) (simp add: slots_agree_def)

lemma slots_agree_dispatch:
  "slots_agree c s \<Longrightarrow> slots_agree c (dispatch beh rs c' old new w s)"
  by (induction rs arbitrary: s) (auto simp: slots_agree_rootSetContext)

lemma slots_agree_setContext:
  "slots_agree c s \<Longrightarrow> slots_agree c (setContext beh c' v u s)"
proof -
  assume a: "slots_agree c s"
  let ?s1 = "s\<lparr>contexts := (contexts s)(c' := (contexts s c')\<lparr>globalValue := v\<rparr>)\<rparr>"
  have al: "slots_agree c (?s1\<lparr>closures := closures ?s1 @ [f]\<rparr>)" for f
    using a by (auto simp: slots_agree_def)
  have cd: "slots_agree c (commitFrom site c' v ?s1)" for site
    using a by (auto simp: slots_agree_def)
  have cd': "slots_agree c (callUser site' g c' (commitFrom site c' v ?s1))" for site site' g
    using a by (auto simp: slots_agree_def)
  show ?thesis
    unfolding setContext_def Let_def alloc_def
    using al cd cd' by (auto split: option.splits intro!: slots_agree_dispatch)
qed

lemma slots_agree_step:
  "slots_agree c s \<Longrightarrow> slots_agree c (step beh a s)"
  by (cases a) (auto simp: slots_agree_setContext slots_agree_wrappedCallback, simp add: slots_agree_def)

lemma slots_agree_run:
  "slots_agree c s \<Longrightarrow> slots_agree c (run beh acts s)"
  by (induction acts arbitrary: s) (auto simp: slots_agree_step)

lemma countRoots_rootList: "countRoots r k = k + int (length (rootList r))"
  by (induction r arbitrary: k) auto

lemma rootList_nonempty: "r \<noteq> RootNull \<Longrightarrow> 1 \<le> length (rootList r)"
  by (cases r) auto

lemma events_since_ext: "trace s' = trace s @ u \<Longrightarrow> events_since s s' = u"
  by (simp add: events_since_def)

section \<open>Reading a sequence of events\<close>

lemma invoked_simps [simp]:
  "invoked w [] = 0"
  "invoked w (t @ u) = invoked w t + invoked w u"
  "invoked w (e # t) = (if is_invoke w e then 1 else 0) + invoked w t"
  by (simp_all add: invoked_def)

lemma fired_simps [simp]:
  "fired w [] = 0"
  "fired w (t @ u) = fired w t + fired w u"
  "fired w (e # t) = (if is_fire w e then 1 else 0) + fired w t"
  by (simp_all add: fired_def)

lemma commits_append [simp]: "commits (t @ u) = commits t @ commits u"
  by (induction t rule: commits.induct) auto

lemma user_calls_append [simp]: "user_calls (t @ u) = user_calls t @ user_calls u"
  by (induction t rule: user_calls.induct) auto

lemma dispatches_append [simp]: "dispatches (t @ u) = dispatches t @ dispatches u"
  by (induction t rule: dispatches.induct) auto

lemma user_args_append [simp]: "user_args (t @ u) = user_args t @ user_args u"
  by (induction t rule: user_args.induct) auto

lemma replay_append [simp]: "replay (t @ u) m = replay u (replay t m)"
  by (induction t arbitrary: m rule: commits.induct) simp_all

lemma commits_from_simps [simp]:
  "commits_from w [] = []"
  "commits_from w (t @ u) = commits_from w t @ commits_from w u"
  by (simp_all add: commits_from_def)

lemma user_calls_from_simps [simp]:
  "user_calls_from w [] = []"
  "user_calls_from w (t @ u) = user_calls_from w t @ user_calls_from w u"
  by (simp_all add: user_calls_from_def)


lemma is_fire_not_invoke: "is_fire w e \<Longrightarrow> \<not> is_invoke w e"
  by (cases e) auto

lemma is_commit_not_invoke: "is_commit w e \<Longrightarrow> \<not> is_invoke w e"
  by (cases e) auto

lemma foreign_simps [simp]:
  "foreign w []"
  "foreign w (t @ u) = (foreign w t \<and> foreign w u)"
  "foreign w (e # t) = (\<not> is_invoke w e \<and> \<not> is_commit w e \<and> \<not> is_fire w e \<and> foreign w t)"
  by (auto simp: foreign_def)

lemma foreign_invoked: "foreign w u \<Longrightarrow> invoked w u = 0"
  by (induction u) auto

lemma foreign_commits_from: "foreign w u \<Longrightarrow> commits_from w u = []"
proof (induction u rule: commits.induct)
  case (2 site c v es)
  then show ?case by (cases site) (auto simp: commits_from_def)
qed (auto simp: commits_from_def)

lemma foreign_user_calls_from: "foreign w u \<Longrightarrow> user_calls_from w u = []"
proof (induction u rule: user_calls.induct)
  case (2 site f args obj es)
  then show ?case by (cases site) (auto simp: user_calls_from_def)
qed (auto simp: user_calls_from_def)

lemma foreign_barrier_trace: "foreign w u \<Longrightarrow> barrier_trace w k u"
  by (induction u) auto

lemma foreign_bound_trace: "foreign w u \<Longrightarrow> bound_trace w u"
  by (induction u) auto

lemma barrier_trace_append_aux:
  "barrier_trace w k t \<Longrightarrow> k' = k - int (invoked w t) \<Longrightarrow> barrier_trace w k' u \<Longrightarrow>
   barrier_trace w k (t @ u)"
proof (induction w k t arbitrary: k' rule: barrier_trace.induct)
  case (1 w k)
  then show ?case by simp
next
  case (2 w k e es)
  show ?case
  proof (cases "is_invoke w e")
    case inv: True
    show ?thesis
    proof (cases "k = 1")
      case True
      with inv "2.prems" obtain e1 e2 es2 where es: "es = e1 # e2 # es2"
        and c: "is_commit w e1" and f: "is_fire w e2" and bt: "barrier_trace w 0 es2"
        by (auto split: list.splits)
      have ni: "\<not> is_invoke w e1" "\<not> is_invoke w e2"
        using c f by (simp_all add: is_commit_not_invoke is_fire_not_invoke)
      have "barrier_trace w 0 (es2 @ u)"
        using "2.IH"(1)[OF inv True, of e1 "e2 # es2" e2 es2 k'] "2.prems" inv True es ni bt
        by simp
      then show ?thesis using inv True es c f by simp
    next
      case False
      have "barrier_trace w (k - 1) (es @ u)"
        using "2.IH"(2)[OF inv False, of k'] "2.prems" inv False by simp
      then show ?thesis using inv False by simp
    qed
  next
    case False
    have "barrier_trace w k (es @ u)"
      using "2.IH"(3)[OF False, of k'] "2.prems" False by simp
    then show ?thesis using False "2.prems" by simp
  qed
qed

lemma barrier_trace_append:
  "barrier_trace w k t \<Longrightarrow> barrier_trace w (k - int (invoked w t)) u \<Longrightarrow> barrier_trace w k (t @ u)"
  by (rule barrier_trace_append_aux) simp_all

lemma bound_trace_append:
  "bound_trace w t \<Longrightarrow> bound_trace w u \<Longrightarrow> bound_trace w (t @ u)"
proof (induction w t rule: bound_trace.induct)
  case (1 w)
  then show ?case by simp
next
  case (2 w e es)
  show ?case
  proof (cases "is_invoke w e")
    case True
    with "2.prems" obtain e1 es1 where es: "es = e1 # es1" and c: "is_commit w e1"
      and bt: "bound_trace w es1"
      by (auto split: list.splits)
    have "bound_trace w (es1 @ u)"
      using "2.IH"(1)[OF True es bt] "2.prems" by simp
    then show ?thesis using True es c by simp
  next
    case False
    have "bound_trace w (es @ u)"
      using "2.IH"(2)[OF False] "2.prems" False by simp
    then show ?thesis using False "2.prems" by simp
  qed
qed

lemma closure_trace_append:
  "closure_trace w f t \<Longrightarrow> closure_trace w (after_calls f (invoked w t)) u \<Longrightarrow>
   closure_trace w f (t @ u)"
  by (cases f) (auto intro: barrier_trace_append bound_trace_append)

lemma closure_trace_foreign: "foreign w u \<Longrightarrow> closure_trace w f u"
  by (cases f) (auto intro: foreign_barrier_trace foreign_bound_trace)

section \<open>Calls of the function objects\<close>

lemma wrappedCallback_outside: "\<not> w < length (closures s) \<Longrightarrow> wrappedCallback w s = s"
  by (simp add: wrappedCallback_def)

lemma wrappedCallback_Counting:
  assumes "w < length (closures s)" and "closures s ! w = Counting m c v cb"
  shows "trace (wrappedCallback w s) =
           trace s @ (if m = 1
                      then [WrappedCallback w, Commit (Some w) c v,
                            UserCallback (Some w) cb []
                              ((contexts s c)\<lparr>currentValue2 := v, currentValue := v\<rparr>)]
                      else [WrappedCallback w])"
    and "closures (wrappedCallback w s) = (closures s)[w := Counting (m - 1) c v cb]"
    and "contexts (wrappedCallback w s) =
           (if m = 1 then contexts (contextDidUpdate c v s) else contexts s)"
    and "first (wrappedCallback w s) = first s"
  using assms by (auto simp: wrappedCallback_def Let_def fun_eq_iff)

lemma wrappedCallback_Bound:
  assumes "w < length (closures s)" and "closures s ! w = Bound c v"
  shows "trace (wrappedCallback w s) = trace s @ [WrappedCallback w, Commit (Some w) c v]"
    and "closures (wrappedCallback w s) = closures s"
    and "contexts (wrappedCallback w s) = contexts (contextDidUpdate c v s)"
    and "first (wrappedCallback w s) = first s"
  using assms by (auto simp: wrappedCallback_def Let_def fun_eq_iff)


lemma closure_inv_same:
  assumes "closure_inv L w f s"
  shows "closure_inv L w f (wrappedCallback w s)"
proof -
  let ?t = "drop L (trace s)"
  let ?k = "invoked w ?t"
  from assms have L: "L \<le> length (trace s)" and w: "w < length (closures s)"
    and cl: "closures s ! w = after_calls f ?k"
    and ct: "closure_trace w f ?t"
    and cm: "commits_from w ?t = commits_after w f ?k"
    and uc: "user_calls_from w ?t = user_calls_after w f ?k"
    by (simp_all add: closure_inv_def)
  show ?thesis
  proof (cases f)
    case (Counting n c v cb)
    let ?m = "n - int ?k"
    have cl': "closures s ! w = Counting ?m c v cb"
      using cl Counting by simp
    note wc = wrappedCallback_Counting[OF w cl']
    let ?u = "if ?m = 1
              then [WrappedCallback w, Commit (Some w) c v,
                    UserCallback (Some w) cb []
                      ((contexts s c)\<lparr>currentValue2 := v, currentValue := v\<rparr>)]
              else [WrappedCallback w]"
    have tr: "drop L (trace (wrappedCallback w s)) = ?t @ ?u"
      using L wc(1) by simp
    have iu: "invoked w ?u = 1" by simp
    have "closure_trace w (after_calls f ?k) ?u"
      using Counting by simp
    with ct have 1: "closure_trace w f (?t @ ?u)"
      by (rule closure_trace_append)
    have 2: "commits_from w (?t @ ?u) = commits_after w f (invoked w (?t @ ?u))"
      using cm Counting by (auto simp: commits_from_def)
    have 3: "user_calls_from w (?t @ ?u) = user_calls_after w f (invoked w (?t @ ?u))"
      using uc Counting by (auto simp: user_calls_from_def)
    have 4: "closures (wrappedCallback w s) ! w = after_calls f (invoked w (?t @ ?u))"
      using w wc(2) Counting by auto
    show ?thesis
      unfolding closure_inv_def tr using L w wc(1,2) 1 2 3 4 by simp
  next
    case (Bound c v)
    have cl': "closures s ! w = Bound c v"
      using cl Bound by simp
    note wc = wrappedCallback_Bound[OF w cl']
    let ?u = "[WrappedCallback w, Commit (Some w) c v]"
    have tr: "drop L (trace (wrappedCallback w s)) = ?t @ ?u"
      using L wc(1) by simp
    have "closure_trace w (after_calls f ?k) ?u"
      using Bound by simp
    with ct have 1: "closure_trace w f (?t @ ?u)"
      by (rule closure_trace_append)
    have 2: "commits_from w (?t @ ?u) = commits_after w f (invoked w (?t @ ?u))"
      using cm Bound by (simp add: commits_from_def replicate_append_same)
    have 3: "user_calls_from w (?t @ ?u) = user_calls_after w f (invoked w (?t @ ?u))"
      using uc Bound by (simp add: user_calls_from_def)
    have 4: "closures (wrappedCallback w s) ! w = after_calls f (invoked w (?t @ ?u))"
      using w wc(2) cl' Bound by simp
    show ?thesis
      unfolding closure_inv_def tr using L w wc(1,2) 1 2 3 4 by simp
  qed
qed

lemma closure_inv_neutral:
  assumes "closure_inv L w f s"
    and "trace s' = trace s @ u" and "foreign w u"
    and "w < length (closures s')" and "closures s' ! w = closures s ! w"
  shows "closure_inv L w f s'"
proof -
  from assms(1) have L: "L \<le> length (trace s)" and ct: "closure_trace w f (drop L (trace s))"
    by (simp_all add: closure_inv_def)
  have tr: "drop L (trace s') = drop L (trace s) @ u"
    using L assms(2) by simp
  have "closure_trace w f (drop L (trace s) @ u)"
    using ct closure_trace_foreign[OF assms(3)] by (rule closure_trace_append)
  then show ?thesis
    using assms(1,2,4,5) foreign_invoked[OF assms(3)] foreign_commits_from[OF assms(3)]
      foreign_user_calls_from[OF assms(3)]
    unfolding closure_inv_def tr by simp
qed

lemma closure_inv_other:
  assumes "closure_inv L w f s" and "w' \<noteq> w"
  shows "closure_inv L w f (wrappedCallback w' s)"
proof (cases "w' < length (closures s)")
  case False
  then show ?thesis using assms by (simp add: wrappedCallback_outside)
next
  case True
  from assms(1) have w: "w < length (closures s)" by (simp add: closure_inv_def)
  show ?thesis
  proof (cases "closures s ! w'")
    case (Counting m c' v' cb')
    note wc = wrappedCallback_Counting[OF True Counting]
    show ?thesis
      by (rule closure_inv_neutral[OF assms(1) wc(1)]) (use assms(2) w in \<open>auto simp: wc(2)\<close>)
  next
    case (Bound c' v')
    note wc = wrappedCallback_Bound[OF True Bound]
    show ?thesis
      by (rule closure_inv_neutral[OF assms(1) wc(1)]) (use assms(2) w in \<open>auto simp: wc(2)\<close>)
  qed
qed

lemma closure_inv_wrappedCallback:
  "closure_inv L w f s \<Longrightarrow> closure_inv L w f (wrappedCallback w' s)"
  by (cases "w' = w") (auto intro: closure_inv_same closure_inv_other)

lemma closure_inv_callAll:
  "closure_inv L w f s \<Longrightarrow> closure_inv L w f (callAll ws s)"
  by (induction ws arbitrary: s) (auto intro: closure_inv_wrappedCallback)

lemma closure_inv_emit:
  assumes "closure_inv L w f s" and "foreign w [e]"
  shows "closure_inv L w f (emit e s)"
  by (rule closure_inv_neutral[OF assms(1), where u = "[e]"])
    (use assms in \<open>auto simp: closure_inv_def\<close>)

lemma closure_inv_rootSetContext:
  "closure_inv L w f s \<Longrightarrow> closure_inv L w f (rootSetContext beh r c' old new w' s)"
  unfolding rootSetContext_def
  by (intro closure_inv_callAll closure_inv_emit) simp_all

lemma closure_inv_dispatch:
  "closure_inv L w f s \<Longrightarrow> closure_inv L w f (dispatch beh rs c' old new w' s)"
  by (induction rs arbitrary: s) (auto intro: closure_inv_rootSetContext)

lemma publishIntent_simps [simp]:
  "trace (publishIntent c v s) = trace s"
  "closures (publishIntent c v s) = closures s"
  "first (publishIntent c v s) = first s"
  "contexts (publishIntent c v s) c' =
     (if c' = c then (contexts s c)\<lparr>globalValue := v\<rparr> else contexts s c')"
  by (simp_all add: publishIntent_def)

lemma setContext_roots:
  "first s \<noteq> RootNull \<Longrightarrow>
   setContext beh c v u s =
     dispatch beh (first s) c (globalValue (contexts s c)) v (length (closures s))
       ((publishIntent c v s)\<lparr>closures := closures s @ [publish_closure u (first s) c v]\<rparr>)"
  by (cases u)
    (simp_all add: setContext_def alloc_def publishIntent_def publish_closure_def
      countRoots_rootList)

lemma setContext_no_roots:
  "first s = RootNull \<Longrightarrow>
   setContext beh c v u s =
     (case u of Some cb \<Rightarrow> callUser None cb c (commitFrom None c v (publishIntent c v s))
              | None \<Rightarrow> commitFrom None c v (publishIntent c v s))"
  by (simp add: setContext_def publishIntent_def split: option.splits)

lemma closure_inv_cong:
  "trace s' = trace s \<Longrightarrow> closures s' = closures s \<Longrightarrow>
   closure_inv L w f s \<Longrightarrow> closure_inv L w f s'"
  by (simp add: closure_inv_def)

lemma closure_inv_alloc:
  "closure_inv L w f s \<Longrightarrow> trace s' = trace s \<Longrightarrow> closures s' = closures s @ [g] \<Longrightarrow>
   closure_inv L w f s'"
  by (simp add: closure_inv_def nth_append)

lemma closure_inv_setContext:
  assumes "closure_inv L w f s"
  shows "closure_inv L w f (setContext beh c' v' u s)"
proof (cases "first s = RootNull")
  case True
  have p: "closure_inv L w f (publishIntent c' v' s)"
    by (rule closure_inv_cong[OF _ _ assms]) simp_all
  have 1: "closure_inv L w f (commitFrom None c' v' (publishIntent c' v' s))"
    by (rule closure_inv_neutral[OF p, where u = "[Commit None c' v']"])
      (use assms in \<open>auto simp: closure_inv_def\<close>)
  have 2: "closure_inv L w f (callUser None cb c' (commitFrom None c' v' (publishIntent c' v' s)))"
    for cb
    by (rule closure_inv_neutral[OF 1,
          where u = "[UserCallback None cb []
                        (contexts (commitFrom None c' v' (publishIntent c' v' s)) c')]"])
      (use assms in \<open>auto simp: closure_inv_def\<close>)
  show ?thesis
    using True 1 2 by (cases u) (simp_all add: setContext_no_roots)
next
  case False
  have "closure_inv L w f ((publishIntent c' v' s)\<lparr>closures := closures s @ [g]\<rparr>)" for g
    by (rule closure_inv_alloc[OF assms]) simp_all
  then show ?thesis
    unfolding setContext_roots[OF False] by (rule closure_inv_dispatch)
qed

lemma closure_inv_step:
  "closure_inv L w f s \<Longrightarrow> closure_inv L w f (step beh a s)"
proof (cases a)
  case (SetRootList r)
  assume "closure_inv L w f s"
  then show ?thesis unfolding SetRootList by (simp add: closure_inv_def)
qed (auto intro: closure_inv_setContext closure_inv_wrappedCallback)

lemma closure_inv_run:
  "closure_inv L w f s \<Longrightarrow> closure_inv L w f (run beh acts s)"
  by (induction acts arbitrary: s) (auto intro: closure_inv_step)

lemma closure_inv_publish:
  assumes "first s \<noteq> RootNull"
  shows "closure_inv (length (trace s)) (length (closures s)) (publish_closure u (first s) c v)
           (setContext beh c v u s)"
proof -
  have "closure_inv (length (trace s)) (length (closures s)) (publish_closure u (first s) c v)
          ((publishIntent c v s)\<lparr>closures := closures s @ [publish_closure u (first s) c v]\<rparr>)"
    using rootList_nonempty[OF assms]
    by (cases u) (auto simp: closure_inv_def publish_closure_def)
  then show ?thesis
    unfolding setContext_roots[OF assms] by (rule closure_inv_dispatch)
qed

lemma closure_inv_reachable:
  assumes "first s \<noteq> RootNull"
  shows "closure_inv (length (trace s)) (length (closures s)) (publish_closure u (first s) c v)
           (run beh acts (setContext beh c v u s))"
  by (rule closure_inv_run[OF closure_inv_publish[OF assms]])

section \<open>What a publish and an execution record\<close>

lemma slots_simps [simp]:
  "slots (emit e s) = slots s"
  "slots (callUser site f c s) = slots s"
  "slots (publishIntent c v s) = slots s"
  "slots (s\<lparr>closures := cl\<rparr>) = slots s"
  "slots (s\<lparr>first := r\<rparr>) = slots s"
  "slots (contextDidUpdate c v s) = (slots s)(c := (v, v))"
  "slots (commitFrom site c v s) = (slots s)(c := (v, v))"
  by (auto simp: slots_def fun_eq_iff)

lemma direct_commits_simps [simp]:
  "direct_commits [] = []"
  "direct_commits (t @ u) = direct_commits t @ direct_commits u"
  by (simp_all add: direct_commits_def)

lemma slots_cong: "contexts s' = contexts s \<Longrightarrow> slots s' = slots s"
  by (simp add: slots_def fun_eq_iff)

lemma wrappedCallback_events:
  "\<exists>u. trace (wrappedCallback w s) = trace s @ u \<and> dispatches u = [] \<and>
       set (user_args u) \<subseteq> {[]} \<and> slots (wrappedCallback w s) = replay u (slots s) \<and>
       direct_commits u = []"
proof (cases "w < length (closures s)")
  case False
  then show ?thesis by (simp add: wrappedCallback_outside)
next
  case True
  show ?thesis
  proof (cases "closures s ! w")
    case (Counting m c v cb)
    note wc = wrappedCallback_Counting[OF True Counting]
    have "slots (wrappedCallback w s) = (if m = 1 then (slots s)(c := (v, v)) else slots s)"
      using wc(3) slots_cong[of "wrappedCallback w s" "contextDidUpdate c v s"]
        slots_cong[of "wrappedCallback w s" s]
      by (auto split: if_splits)
    then show ?thesis
      unfolding wc(1) by (simp add: direct_commits_def)
  next
    case (Bound c v)
    note wc = wrappedCallback_Bound[OF True Bound]
    have "slots (wrappedCallback w s) = (slots s)(c := (v, v))"
      using slots_cong[OF wc(3)] by simp
    then show ?thesis
      unfolding wc(1) by (simp add: direct_commits_def)
  qed
qed

lemma callAll_events:
  "\<exists>u. trace (callAll ws s) = trace s @ u \<and> dispatches u = [] \<and>
       set (user_args u) \<subseteq> {[]} \<and> slots (callAll ws s) = replay u (slots s) \<and>
       direct_commits u = []"
proof (induction ws arbitrary: s)
  case Nil
  then show ?case by simp
next
  case (Cons w ws)
  obtain u1 where u1: "trace (wrappedCallback w s) = trace s @ u1" "dispatches u1 = []"
    "set (user_args u1) \<subseteq> {[]}" "slots (wrappedCallback w s) = replay u1 (slots s)"
    "direct_commits u1 = []"
    using wrappedCallback_events[of w s] by blast
  obtain u2 where u2: "trace (callAll ws (wrappedCallback w s)) = trace (wrappedCallback w s) @ u2"
    "dispatches u2 = []" "set (user_args u2) \<subseteq> {[]}"
    "slots (callAll ws (wrappedCallback w s)) = replay u2 (slots (wrappedCallback w s))"
    "direct_commits u2 = []"
    using Cons.IH[of "wrappedCallback w s"] by blast
  show ?case
    using u1 u2 by (intro exI[of _ "u1 @ u2"]) simp
qed

lemma rootSetContext_events:
  "\<exists>u. trace (rootSetContext beh r c old new w s) = trace s @ u \<and>
       dispatches u = [(r, c, globalValue (contexts s c), old, new, w)] \<and>
       set (user_args u) \<subseteq> {[]} \<and>
       slots (rootSetContext beh r c old new w s) = replay u (slots s) \<and>
       direct_commits u = []"
proof -
  let ?e = "RootSetContext r c (contexts s c) old new w"
  obtain u where u: "trace (callAll (beh r s c old new w) (emit ?e s)) = trace (emit ?e s) @ u"
    "dispatches u = []" "set (user_args u) \<subseteq> {[]}"
    "slots (callAll (beh r s c old new w) (emit ?e s)) = replay u (slots (emit ?e s))"
    "direct_commits u = []"
    using callAll_events[of "beh r s c old new w" "emit ?e s"] by blast
  show ?thesis
    unfolding rootSetContext_def using u
    by (intro exI[of _ "?e # u"]) (simp add: direct_commits_def)
qed

lemma globalValue_wrappedCallback:
  "globalValue (contexts (wrappedCallback w s) c) = globalValue (contexts s c)"
  by (auto simp: wrappedCallback_def Let_def split: closure.splits)

lemma globalValue_callAll:
  "globalValue (contexts (callAll ws s) c) = globalValue (contexts s c)"
  by (induction ws arbitrary: s) (auto simp: globalValue_wrappedCallback)

lemma globalValue_rootSetContext:
  "globalValue (contexts (rootSetContext beh r c' old new w s) c) = globalValue (contexts s c)"
  by (simp add: rootSetContext_def globalValue_callAll)

lemma globalValue_dispatch:
  "globalValue (contexts (dispatch beh rs c' old new w s) c) = globalValue (contexts s c)"
  by (induction rs arbitrary: s) (auto simp: globalValue_rootSetContext)

lemma globalValue_setContext:
  "globalValue (contexts (setContext beh c v u s) c) = v"
proof (cases "first s = RootNull")
  case True
  then show ?thesis by (simp add: setContext_no_roots split: option.splits)
next
  case False
  then show ?thesis
    by (simp add: setContext_roots globalValue_dispatch)
qed


lemma dispatch_events:
  "\<exists>u. trace (dispatch beh rs c old new w s) = trace s @ u \<and>
       dispatches u = map (\<lambda>r. (r, c, globalValue (contexts s c), old, new, w)) (rootList rs) \<and>
       set (user_args u) \<subseteq> {[]} \<and>
       slots (dispatch beh rs c old new w s) = replay u (slots s) \<and>
       direct_commits u = []"
proof (induction rs arbitrary: s)
  case RootNull
  then show ?case by simp
next
  case (Root r rs)
  let ?s1 = "rootSetContext beh r c old new w s"
  obtain u1 where u1: "trace ?s1 = trace s @ u1"
    "dispatches u1 = [(r, c, globalValue (contexts s c), old, new, w)]"
    "set (user_args u1) \<subseteq> {[]}" "slots ?s1 = replay u1 (slots s)"
    "direct_commits u1 = []"
    using rootSetContext_events[of beh r c old new w s] by blast
  obtain u2 where u2: "trace (dispatch beh rs c old new w ?s1) = trace ?s1 @ u2"
    "dispatches u2 = map (\<lambda>r. (r, c, globalValue (contexts ?s1 c), old, new, w)) (rootList rs)"
    "set (user_args u2) \<subseteq> {[]}"
    "slots (dispatch beh rs c old new w ?s1) = replay u2 (slots ?s1)"
    "direct_commits u2 = []"
    using Root.IH[of ?s1] by blast
  show ?case
  proof (intro exI[of _ "u1 @ u2"] conjI)
    show "trace (dispatch beh (Root r rs) c old new w s) = trace s @ u1 @ u2"
      using u1(1) u2(1) by simp
    show "dispatches (u1 @ u2) =
            map (\<lambda>r. (r, c, globalValue (contexts s c), old, new, w)) (rootList (Root r rs))"
      by (simp add: u1(2) u2(2) globalValue_rootSetContext)
    show "set (user_args (u1 @ u2)) \<subseteq> {[]}"
      using u1(3) u2(3) by simp
    show "slots (dispatch beh (Root r rs) c old new w s) = replay (u1 @ u2) (slots s)"
      using u1(4) u2(4) by simp
    show "direct_commits (u1 @ u2) = []"
      using u1(5) u2(5) by simp
  qed
qed

lemma setContext_events:
  "\<exists>t. trace (setContext beh c v u s) = trace s @ t \<and>
       dispatches t = map (\<lambda>r. (r, c, v, globalValue (contexts s c), v, length (closures s)))
                        (rootList (first s)) \<and>
       set (user_args t) \<subseteq> {[]} \<and>
       slots (setContext beh c v u s) = replay t (slots s)"
proof (cases "first s = RootNull")
  case True
  then show ?thesis by (cases u) (simp_all add: setContext_no_roots)
next
  case False
  let ?s1 = "(publishIntent c v s)\<lparr>closures := closures s @ [publish_closure u (first s) c v]\<rparr>"
  obtain t where "trace (dispatch beh (first s) c (globalValue (contexts s c)) v
                     (length (closures s)) ?s1) = trace ?s1 @ t"
    and "dispatches t = map (\<lambda>r. (r, c, globalValue (contexts ?s1 c), globalValue (contexts s c),
                                  v, length (closures s))) (rootList (first s))"
    and "set (user_args t) \<subseteq> {[]}"
    and "slots (dispatch beh (first s) c (globalValue (contexts s c)) v
                     (length (closures s)) ?s1) = replay t (slots ?s1)"
    using dispatch_events[of beh "first s" c "globalValue (contexts s c)" v "length (closures s)" ?s1]
    by blast
  then show ?thesis
    unfolding setContext_roots[OF False] by (intro exI[of _ t]) simp
qed


lemma setContext_roots_direct:
  assumes "first s \<noteq> RootNull"
  shows "direct_commits (events_since s (setContext beh c v u s)) = []"
proof -
  let ?s1 = "(publishIntent c v s)\<lparr>closures := closures s @ [publish_closure u (first s) c v]\<rparr>"
  obtain t where "trace (dispatch beh (first s) c (globalValue (contexts s c)) v
                     (length (closures s)) ?s1) = trace ?s1 @ t"
    and "direct_commits t = []"
    using dispatch_events[of beh "first s" c "globalValue (contexts s c)" v "length (closures s)" ?s1]
    by blast
  then show ?thesis
    unfolding setContext_roots[OF assms] by (simp add: events_since_def)
qed

lemma step_events:
  "\<exists>t. trace (step beh a s) = trace s @ t \<and> set (user_args t) \<subseteq> {[]} \<and>
       slots (step beh a s) = replay t (slots s)"
proof (cases a)
  case (Publish c v u)
  then show ?thesis using setContext_events[of beh c v u s] by auto
next
  case (RootDone w)
  then show ?thesis using wrappedCallback_events[of w s] by auto
next
  case (SetRootList r)
  then show ?thesis by simp
qed

lemma run_events:
  "\<exists>t. trace (run beh acts s) = trace s @ t \<and> set (user_args t) \<subseteq> {[]} \<and>
       slots (run beh acts s) = replay t (slots s)"
proof (induction acts arbitrary: s)
  case Nil
  then show ?case by simp
next
  case (Cons a acts)
  obtain t1 where t1: "trace (step beh a s) = trace s @ t1" "set (user_args t1) \<subseteq> {[]}"
    "slots (step beh a s) = replay t1 (slots s)"
    using step_events[of beh a s] by blast
  obtain t2 where t2: "trace (run beh acts (step beh a s)) = trace (step beh a s) @ t2"
    "set (user_args t2) \<subseteq> {[]}"
    "slots (run beh acts (step beh a s)) = replay t2 (slots (step beh a s))"
    using Cons.IH[of "step beh a s"] by blast
  show ?case
    using t1 t2 by (intro exI[of _ "t1 @ t2"]) simp
qed

lemma contextDidUpdate_twice:
  "contextDidUpdate c v (contextDidUpdate c v s) = contextDidUpdate c v s"
  by (simp add: contextDidUpdate_def)

lemma bound_repeated:
  assumes "w < length (closures s)" and "closures s ! w = Bound c v"
  shows "closures ((wrappedCallback w ^^ k) s) = closures s \<and>
         contexts ((wrappedCallback w ^^ k) s) =
           (if k = 0 then contexts s else contexts (contextDidUpdate c v s))"
proof (induction k)
  case 0
  then show ?case by simp
next
  case (Suc k)
  let ?s = "(wrappedCallback w ^^ k) s"
  have w: "w < length (closures ?s)" and cl: "closures ?s ! w = Bound c v"
    using Suc assms by simp_all
  show ?case
    using Suc wrappedCallback_Bound(2,3)[OF w cl]
    by (auto simp: fun_eq_iff)
qed

lemma example_simps:
  "first no_roots = RootNull" "closures no_roots = []" "trace no_roots = []"
  "contexts no_roots a = \<lparr>calculateChangedBits = Null, globalValue = 0, currentValue = 0, currentValue2 = 0\<rparr>"
  "first three_roots = Root 1 (Root 2 (Root 3 RootNull))" "closures three_roots = []" "trace three_roots = []"
  "contexts three_roots a = \<lparr>calculateChangedBits = Null, globalValue = 0, currentValue = 0, currentValue2 = 0\<rparr>"
  by (simp_all add: no_roots_def three_roots_def createContext_def)

lemmas scenario_defs = setContext_def alloc_def rootSetContext_def wrappedCallback_def
  contextDidUpdate_def commitFrom_def callUser_def emit_def events_since_def two_sync_def
  deferred_def Let_def invoked_def fired_def commits_from_def user_calls_from_def

lemma counting_reachable:
  assumes "first s \<noteq> RootNull"
  shows "length (closures s) < length (closures (run beh acts (setContext beh c v (Some cb) s)))"
    and "closures (run beh acts (setContext beh c v (Some cb) s)) ! length (closures s) =
           Counting (int (length (rootList (first s))) -
                     int (invoked (length (closures s))
                            (events_since s (run beh acts (setContext beh c v (Some cb) s)))))
             c v cb"
    and "barrier_trace (length (closures s)) (int (length (rootList (first s))))
           (events_since s (run beh acts (setContext beh c v (Some cb) s)))"
    and "commits_from (length (closures s))
           (events_since s (run beh acts (setContext beh c v (Some cb) s))) =
         (if int (length (rootList (first s)))
               \<le> int (invoked (length (closures s))
                        (events_since s (run beh acts (setContext beh c v (Some cb) s))))
          then [(Some (length (closures s)), c, v)] else [])"
    and "user_calls_from (length (closures s))
           (events_since s (run beh acts (setContext beh c v (Some cb) s))) =
         (if int (length (rootList (first s)))
               \<le> int (invoked (length (closures s))
                        (events_since s (run beh acts (setContext beh c v (Some cb) s))))
          then [(Some (length (closures s)), cb, [], v, v)] else [])"
  using closure_inv_reachable[OF assms, of "Some cb" c v beh acts]
  by (simp_all add: closure_inv_def publish_closure_def events_since_def)

lemma bound_reachable:
  assumes "first s \<noteq> RootNull"
  shows "length (closures s) < length (closures (run beh acts (setContext beh c v None s)))"
    and "closures (run beh acts (setContext beh c v None s)) ! length (closures s) = Bound c v"
    and "bound_trace (length (closures s))
           (events_since s (run beh acts (setContext beh c v None s)))"
    and "commits_from (length (closures s))
           (events_since s (run beh acts (setContext beh c v None s))) =
         replicate (invoked (length (closures s))
                      (events_since s (run beh acts (setContext beh c v None s))))
           (Some (length (closures s)), c, v)"
    and "user_calls_from (length (closures s))
           (events_since s (run beh acts (setContext beh c v None s))) = []"
  using closure_inv_reachable[OF assms, of None c v beh acts]
  by (simp_all add: closure_inv_def publish_closure_def events_since_def)

section \<open>The barrier\<close>





section \<open>Publishing\<close>

text \<open>
  Claim C5 (visibility precedence). After \<^verbatim>\<open>setContext\<close> returns,
  \<^verbatim>\<open>_globalValue\<close> of the context is the new value, whether or not any root has called
  back. The calls of \<^verbatim>\<open>root.setContext\<close> made by the publish are one per root of the
  registry, in order; each is made when the context object already holds the new value
  in \<^verbatim>\<open>_globalValue\<close>, and each passes the \<^verbatim>\<open>_globalValue\<close> from before the
  publish as the old value, the new value, and the publish's done callback.
\<close>

theorem visibility_precedence:
  "globalValue (contexts (setContext beh c v u s) c) = v \<and>
   dispatches (events_since s (setContext beh c v u s)) =
     map (\<lambda>r. (r, c, v, globalValue (contexts s c), v, length (closures s))) (rootList (first s))"
proof -
  obtain t where "trace (setContext beh c v u s) = trace s @ t"
    and "dispatches t = map (\<lambda>r. (r, c, v, globalValue (contexts s c), v, length (closures s)))
                          (rootList (first s))"
    using setContext_events[of beh c v u s] by blast
  then show ?thesis
    by (simp add: events_since_ext globalValue_setContext)
qed

text \<open>
  Claim C3 (no-consumer fast path). With an empty registry \<^verbatim>\<open>setContext\<close> writes
  the new value to \<^verbatim>\<open>_globalValue\<close>, \<^verbatim>\<open>_currentValue\<close> and \<^verbatim>\<open>_currentValue2\<close>
  before it returns; after the commit it makes one call of the user callback, when one
  was supplied, and nothing else; it allocates no function object and dispatches to no
  root.
\<close>

theorem no_consumer_fast_path:
  assumes "first s = RootNull"
  shows "let s' = setContext beh c v u s
         in globalValue (contexts s' c) = v \<and>
            currentValue (contexts s' c) = v \<and>
            currentValue2 (contexts s' c) = v \<and>
            events_since s s' =
              (case u of None \<Rightarrow> [Commit None c v]
               | Some cb \<Rightarrow> [Commit None c v, UserCallback None cb [] (contexts s' c)]) \<and>
            closures s' = closures s \<and>
            first s' = first s"
  using assms
  by (cases u) (simp_all add: setContext_no_roots events_since_def)

text \<open>
  The scenario of a context with default \<open>0\<close>, no roots and a publish of \<open>5\<close>.
\<close>

theorem no_consumer_fast_path_witness:
  "first no_roots = RootNull \<and>
   (let s' = setContext deferred 0 5 (Some 1) no_roots
    in globalValue (contexts s' 0) = 5 \<and>
       currentValue (contexts s' 0) = 5 \<and>
       currentValue2 (contexts s' 0) = 5 \<and>
       events_since no_roots s' = [Commit None 0 5, UserCallback None 1 [] (contexts s' 0)] \<and>
       closures s' = [] \<and>
       first s' = RootNull)"
proof -
  have h: "first no_roots = RootNull"
    by (simp add: example_simps)
  show ?thesis
    using h no_consumer_fast_path [OF h, of deferred 0 5 "Some 1"]
    by (simp add: example_simps)
qed







section \<open>Commit\<close>

text \<open>
  Claim C7 (commit atomicity). The commit step writes the same value to
  \<^verbatim>\<open>_currentValue\<close> and \<^verbatim>\<open>_currentValue2\<close>, and after a commit on a context the
  two slots of that context are equal in every state that the module can reach from
  there, whatever publishes and done callbacks follow.
\<close>

theorem commit_atomicity:
  "currentValue (contexts (contextDidUpdate c v s) c) = v \<and>
   currentValue2 (contexts (contextDidUpdate c v s) c) = v \<and>
   currentValue (contexts (run beh acts (contextDidUpdate c v s)) c) =
   currentValue2 (contexts (run beh acts (contextDidUpdate c v s)) c)"
proof -
  have "slots_agree c (contextDidUpdate c v s)"
    by (simp add: slots_agree_def)
  then have "slots_agree c (run beh acts (contextDidUpdate c v s))"
    by (rule slots_agree_run)
  then show ?thesis
    by (simp add: slots_agree_def)
qed

text \<open>
  Claim C10 (idempotent commit). Applying \<^verbatim>\<open>contextDidUpdate\<close> \<open>k \<ge> 1\<close> times
  with the same context and value gives the state that one application gives, in which
  \<^verbatim>\<open>_currentValue\<close> and \<^verbatim>\<open>_currentValue2\<close> of the context both are the new value and
  \<^verbatim>\<open>_globalValue\<close> is what it was; and when the done callback is the bound commit step
  of a publish without user callback, \<open>k\<close> calls of it leave the store of contexts as
  one commit does, with the new value in both current slots.
\<close>

theorem contextDidUpdate_idempotent:
  assumes "0 < k"
  shows "(contextDidUpdate c v ^^ k) s = contextDidUpdate c v s \<and>
         currentValue (contexts ((contextDidUpdate c v ^^ k) s) c) = v \<and>
         currentValue2 (contexts ((contextDidUpdate c v ^^ k) s) c) = v \<and>
         globalValue (contexts ((contextDidUpdate c v ^^ k) s) c) = globalValue (contexts s c) \<and>
         (w < length (closures s) \<and> closures s ! w = Bound c v \<longrightarrow>
            contexts ((wrappedCallback w ^^ k) s) = contexts (contextDidUpdate c v s) \<and>
            currentValue (contexts ((wrappedCallback w ^^ k) s) c) = v \<and>
            currentValue2 (contexts ((wrappedCallback w ^^ k) s) c) = v)"
proof -
  have "(contextDidUpdate c v ^^ Suc j) s = contextDidUpdate c v s" for j
    by (induction j) (simp_all add: contextDidUpdate_twice)
  then have 1: "(contextDidUpdate c v ^^ k) s = contextDidUpdate c v s"
    using assms by (cases k) simp_all
  have 2: "w < length (closures s) \<and> closures s ! w = Bound c v \<longrightarrow>
            contexts ((wrappedCallback w ^^ k) s) = contexts (contextDidUpdate c v s)"
    using assms bound_repeated[of w s c v k] by simp
  show ?thesis
    unfolding 1 using 2 by simp
qed

theorem contextDidUpdate_idempotent_witness:
  "0 < (3::nat) \<and>
   (contextDidUpdate 0 7 ^^ 3) three_roots = contextDidUpdate 0 7 three_roots \<and>
   contexts ((contextDidUpdate 0 7 ^^ 3) three_roots) 0 =
     \<lparr>calculateChangedBits = Null, globalValue = 0, currentValue = 7, currentValue2 = 7\<rparr> \<and>
   0 < length (closures (setContext deferred 0 7 None three_roots)) \<and>
   closures (setContext deferred 0 7 None three_roots) ! 0 = Bound 0 7 \<and>
   contexts ((wrappedCallback 0 ^^ 3) (setContext deferred 0 7 None three_roots)) =
     contexts (contextDidUpdate 0 7 (setContext deferred 0 7 None three_roots)) \<and>
   contexts ((wrappedCallback 0 ^^ 3) (setContext deferred 0 7 None three_roots)) 0 =
     \<lparr>calculateChangedBits = Null, globalValue = 7, currentValue = 7, currentValue2 = 7\<rparr>"
proof -
  have k: "0 < (3::nat)" by simp
  have h: "0 < length (closures (setContext deferred 0 7 None three_roots)) \<and>
           closures (setContext deferred 0 7 None three_roots) ! 0 = Bound 0 7"
    by (simp add: scenario_defs example_simps)
  have g: "contexts (setContext deferred 0 7 None three_roots) 0 =
     \<lparr>calculateChangedBits = Null, globalValue = 7, currentValue = 0, currentValue2 = 0\<rparr>"
    by (simp add: scenario_defs example_simps)
  have a: "(contextDidUpdate 0 7 ^^ 3) three_roots = contextDidUpdate 0 7 three_roots"
    using contextDidUpdate_idempotent [OF k, of 0 7 three_roots 0] by simp
  have b: "contexts ((wrappedCallback 0 ^^ 3) (setContext deferred 0 7 None three_roots)) =
     contexts (contextDidUpdate 0 7 (setContext deferred 0 7 None three_roots))"
    using h contextDidUpdate_idempotent [OF k, of 0 7 "setContext deferred 0 7 None three_roots" 0]
    by simp
  show ?thesis
    unfolding a b using k h g by (simp add: example_simps)
qed

text \<open>
  Claim C2 says that the current slots are written only once the count of outstanding
  roots is zero, also when no user callback is supplied. Without a user callback the
  module keeps no count: the done callback is the commit step itself (line 59). With
  three roots that all defer, a publish of \<open>7\<close> without callback leaves the slots at
  \<open>0\<close>, and the first done call, with two roots still outstanding, sets both to \<open>7\<close>.
\<close>

theorem commit_before_all_roots_counterexample:
  "length (rootList (first three_roots)) = 3 \<and>
   invoked 0 (events_since three_roots (run deferred [Publish 0 7 None, RootDone 0] three_roots)) = 1 \<and>
   currentValue (contexts (run deferred [Publish 0 7 None] three_roots) 0) = 0 \<and>
   currentValue2 (contexts (run deferred [Publish 0 7 None] three_roots) 0) = 0 \<and>
   currentValue (contexts (run deferred [Publish 0 7 None, RootDone 0] three_roots) 0) = 7 \<and>
   currentValue2 (contexts (run deferred [Publish 0 7 None, RootDone 0] three_roots) 0) = 7"
  by (simp add: scenario_defs example_simps)

text \<open>
  Claim C2, amended. In every execution, whatever the roots do, the current slots are
  written by the commit step only: the slots at the end are the slots at the start with
  the recorded commits made in order. A publish on \<open>n \<ge> 1\<close> roots makes no commit
  itself; its commits are made by its done callback. With a user callback, the done
  callback commits once, in the call that brings the count to zero, and in no earlier or
  later call: in every execution after the publish its commits are none while it has
  been called fewer than \<open>n\<close> times and the one commit of the new value from then on,
  recorded directly after the \<open>n\<close>-th call. Without a user callback no count is kept:
  the done callback commits the new value at every call, the first included, each commit
  recorded directly after the call.
\<close>

theorem commit_timing:
  assumes "first s \<noteq> RootNull"
  shows "slots (run beh acts s0) = replay (events_since s0 (run beh acts s0)) (slots s0) \<and>
         direct_commits (events_since s (setContext beh c v u s)) = [] \<and>
         (let w = length (closures s);
              n = int (length (rootList (first s)));
              t = events_since s (run beh acts (setContext beh c v (Some cb) s))
          in barrier_trace w n t \<and>
             commits_from w t = (if n \<le> int (invoked w t) then [(Some w, c, v)] else [])) \<and>
         (let w = length (closures s);
              t = events_since s (run beh acts (setContext beh c v None s))
          in bound_trace w t \<and>
             commits_from w t = replicate (invoked w t) (Some w, c, v))"
proof -
  obtain t where "trace (run beh acts s0) = trace s0 @ t"
    and "slots (run beh acts s0) = replay t (slots s0)"
    using run_events[of beh acts s0] by blast
  then have 1: "slots (run beh acts s0) = replay (events_since s0 (run beh acts s0)) (slots s0)"
    by (simp add: events_since_ext)
  note 2 = setContext_roots_direct[OF assms, of beh c v u]
  note a = counting_reachable(3,4)[OF assms, of beh acts c v cb]
  note b = bound_reachable(3,4)[OF assms, of beh acts c v]
  show ?thesis
    unfolding Let_def using 1 2 a b by (intro conjI)
qed

text \<open>
  Three roots of which two call back during the dispatch of a publish of \<open>7\<close>: with a
  user callback nothing is committed when the publish returns, and the third call
  commits; without one the first call during the dispatch commits already.
\<close>

theorem commit_timing_witness:
  "first three_roots \<noteq> RootNull \<and>
   slots (run two_sync [Publish 0 7 (Some 5), RootDone 0] three_roots) =
     replay (events_since three_roots (run two_sync [Publish 0 7 (Some 5), RootDone 0] three_roots))
       (slots three_roots) \<and>
   direct_commits (events_since three_roots (setContext two_sync 0 7 (Some 5) three_roots)) = [] \<and>
   invoked 0 (events_since three_roots (setContext two_sync 0 7 (Some 5) three_roots)) = 2 \<and>
   commits_from 0 (events_since three_roots (setContext two_sync 0 7 (Some 5) three_roots)) = [] \<and>
   slots (setContext two_sync 0 7 (Some 5) three_roots) 0 = (0, 0) \<and>
   commits_from 0 (events_since three_roots
     (run two_sync [RootDone 0] (setContext two_sync 0 7 (Some 5) three_roots))) = [(Some 0, 0, 7)] \<and>
   slots (run two_sync [RootDone 0] (setContext two_sync 0 7 (Some 5) three_roots)) 0 = (7, 7) \<and>
   barrier_trace 0 3 (events_since three_roots
     (run two_sync [RootDone 0] (setContext two_sync 0 7 (Some 5) three_roots))) \<and>
   bound_trace 0 (events_since three_roots (setContext two_sync 0 7 None three_roots)) \<and>
   commits_from 0 (events_since three_roots (setContext two_sync 0 7 None three_roots)) =
     [(Some 0, 0, 7), (Some 0, 0, 7)] \<and>
   slots (setContext two_sync 0 7 None three_roots) 0 = (7, 7)"
proof -
  have h: "first three_roots \<noteq> RootNull"
    by (simp add: example_simps)
  have l: "length (rootList (first three_roots)) = 3" "length (closures three_roots) = 0"
    by (simp_all add: example_simps)
  have i: "invoked 0 (events_since three_roots (setContext two_sync 0 7 (Some 5) three_roots)) = 2"
    "invoked 0 (events_since three_roots
       (run two_sync [RootDone 0] (setContext two_sync 0 7 (Some 5) three_roots))) = 3"
    "invoked 0 (events_since three_roots (setContext two_sync 0 7 None three_roots)) = 2"
    "slots (setContext two_sync 0 7 (Some 5) three_roots) 0 = (0, 0)"
    "slots (run two_sync [RootDone 0] (setContext two_sync 0 7 (Some 5) three_roots)) 0 = (7, 7)"
    "slots (setContext two_sync 0 7 None three_roots) 0 = (7, 7)"
    by (simp_all add: scenario_defs slots_def example_simps)
  have a: "slots (run two_sync [Publish 0 7 (Some 5), RootDone 0] three_roots) =
     replay (events_since three_roots (run two_sync [Publish 0 7 (Some 5), RootDone 0] three_roots))
       (slots three_roots)"
    and b: "direct_commits (events_since three_roots (setContext two_sync 0 7 (Some 5) three_roots)) = []"
    using commit_timing [OF h, of two_sync "[Publish 0 7 (Some 5), RootDone 0]" three_roots
        0 7 "Some 5" 5]
    by blast+
  have c: "commits_from 0 (events_since three_roots (setContext two_sync 0 7 (Some 5) three_roots)) = []"
    and d: "bound_trace 0 (events_since three_roots (setContext two_sync 0 7 None three_roots))"
    and e: "commits_from 0 (events_since three_roots (setContext two_sync 0 7 None three_roots)) =
     [(Some 0, 0, 7), (Some 0, 0, 7)]"
    using l i(1,3) commit_timing [OF h, of two_sync "[]" three_roots 0 7 "Some 5" 5]
    by (simp_all add: numeral_2_eq_2 Let_def)
  have f: "commits_from 0 (events_since three_roots
     (run two_sync [RootDone 0] (setContext two_sync 0 7 (Some 5) three_roots))) = [(Some 0, 0, 7)]"
    and g: "barrier_trace 0 3 (events_since three_roots
     (run two_sync [RootDone 0] (setContext two_sync 0 7 (Some 5) three_roots)))"
    using l i(2) commit_timing [OF h, of two_sync "[RootDone 0]" three_roots 0 7 "Some 5" 5]
    by (simp_all add: Let_def)
  show ?thesis
    using h a b c d e f g i(1,4,5,6) by blast
qed

section \<open>Creating a context\<close>




end
